theory Spec2Isabelle
  imports Main "HOL-Library.Word"
begin

section \<open>A round-robin load balancer: the data model of main.go\<close>

text \<open>
  A \<open>*url.URL\<close> is used by the program through two observations only: \<open>String()\<close>
  (compared in \<open>MarkBackendStatus\<close>) and the field \<open>Host\<close> (dialled by
  \<open>isBackendAlive\<close>). The record keeps these two.
\<close>

record url =
  String :: string
  Host :: string

text \<open>
  \<open>type Backend struct\<close>. The mutex is not modelled: the model is sequential. A
  \<open>*httputil.ReverseProxy\<close> built by \<open>main\<close> is determined by the \<open>serverUrl\<close> that
  \<open>NewSingleHostReverseProxy\<close> and the \<open>ErrorHandler\<close> closure capture, so the field
  holds that url.
\<close>

record Backend =
  URL :: url
  Alive :: bool
  ReverseProxy :: url

text \<open>\<open>type ServerPool struct\<close>: the slice of backends and the \<open>uint64\<close> cursor.\<close>

record ServerPool =
  backends :: "Backend list"
  current :: "64 word"

text \<open>The two run-time panics the selection code can raise.\<close>

datatype panic = DivideByZero | IndexOutOfRange

definition SetAlive :: "Backend \<Rightarrow> bool \<Rightarrow> Backend" where
  "SetAlive b alive = b\<lparr>Alive := alive\<rparr>"

definition IsAlive :: "Backend \<Rightarrow> bool" where
  "IsAlive b = Alive b"

text \<open>
  \<open>MarkBackendStatus\<close>: the \<open>range\<close> loop with its \<open>break\<close>; only the first backend
  whose url string matches is written.
\<close>

fun MarkBackendStatus_loop :: "Backend list \<Rightarrow> url \<Rightarrow> bool \<Rightarrow> Backend list" where
  "MarkBackendStatus_loop [] backendUrl alive = []"
| "MarkBackendStatus_loop (b # bs) backendUrl alive =
     (if String (URL b) = String backendUrl then SetAlive b alive # bs
      else b # MarkBackendStatus_loop bs backendUrl alive)"

definition MarkBackendStatus :: "ServerPool \<Rightarrow> url \<Rightarrow> bool \<Rightarrow> ServerPool" where
  "MarkBackendStatus s backendUrl alive =
     s\<lparr>backends := MarkBackendStatus_loop (backends s) backendUrl alive\<rparr>"

text \<open>
  \<open>NextIndex\<close>: \<open>atomic.AddUint64\<close> adds 1 to the cursor (wrapping at \<open>2^64\<close>) and
  returns the new value; the remainder by \<open>uint64(len(s.backends))\<close> panics when the
  slice is empty. The addition has happened by then, so the pool is returned in both
  cases.
\<close>

definition NextIndex :: "ServerPool \<Rightarrow> (panic + nat) \<times> ServerPool" where
  "NextIndex s =
     (let s' = s\<lparr>current := current s + 1\<rparr> in
      if length (backends s') = 0 then (Inl DivideByZero, s')
      else (Inr (unat (current s') mod length (backends s')), s'))"

text \<open>
  The \<open>for i := next; i < l; i++\<close> loop of \<open>GetNextPeer\<close>. The returned
  \<open>*Backend\<close> is a pointer into the slice, modelled by its index. The remainder and
  the slice read carry the checks the Go run time makes. \<open>i\<close> and \<open>l\<close> are Go
  \<open>int\<close>s bounded by twice the length of a slice, so they are natural numbers here.
\<close>

function GetNextPeer_loop ::
  "nat \<Rightarrow> nat \<Rightarrow> nat \<Rightarrow> ServerPool \<Rightarrow> (panic + nat option) \<times> ServerPool" where
  "GetNextPeer_loop next l i s =
     (if i < l then
        (if length (backends s) = 0 then (Inl DivideByZero, s)
         else
           (let idx = i mod length (backends s) in
            if \<not> idx < length (backends s) then (Inl IndexOutOfRange, s)
            else if IsAlive (backends s ! idx) then
              (Inr (Some idx), if i \<noteq> next then s\<lparr>current := of_nat idx\<rparr> else s)
            else GetNextPeer_loop next l (i + 1) s))
      else (Inr None, s))"
  by pat_completeness auto
termination
  by (relation "measure (\<lambda>(next, l, i, s). l - i)") auto

declare GetNextPeer_loop.simps [simp del]

definition GetNextPeer :: "ServerPool \<Rightarrow> (panic + nat option) \<times> ServerPool" where
  "GetNextPeer s =
     (case NextIndex s of
        (Inl p, s') \<Rightarrow> (Inl p, s')
      | (Inr next, s') \<Rightarrow>
          (let l = length (backends s') + next in GetNextPeer_loop next l next s'))"


section \<open>Requests, the dispatcher and the proxy's error handler\<close>

text \<open>
  The context keys \<open>const ( Attempts int = iota; Retry )\<close> are the \<open>int\<close>s 0 and 1.
  A \<open>context.Context\<close> is read through \<open>Value\<close> and extended through
  \<open>context.WithValue\<close>; the program stores \<open>int\<close>s only, so the type assertion
  \<open>.(int)\<close> succeeds exactly when a value is present. Go's \<open>int\<close> is modelled by
  \<open>int\<close>: the two counters grow by one per step from an absent value and the
  guards stop them at 3 and 4.
\<close>

definition Attempts :: int where
  "Attempts = 0"

definition Retry :: int where
  "Retry = 1"

type_synonym go_context = "int \<rightharpoonup> int"

definition WithValue :: "go_context \<Rightarrow> int \<Rightarrow> int \<Rightarrow> go_context" where
  "WithValue parent key val = parent(key \<mapsto> val)"

definition Value :: "go_context \<Rightarrow> int \<Rightarrow> int option" where
  "Value c key = c key"

text \<open>Of a \<open>*http.Request\<close> only the context matters to the program (the rest is logged).\<close>

record Request =
  Context :: go_context

definition WithContext :: "Request \<Rightarrow> go_context \<Rightarrow> Request" where
  "WithContext r c = r\<lparr>Context := c\<rparr>"

definition GetRetryFromContext :: "Request \<Rightarrow> int" where
  "GetRetryFromContext r = (case Value (Context r) Retry of Some retry \<Rightarrow> retry | None \<Rightarrow> 0)"

definition GetAttemptsFromContext :: "Request \<Rightarrow> int" where
  "GetAttemptsFromContext r =
     (case Value (Context r) Attempts of Some attemps \<Rightarrow> attemps | None \<Rightarrow> 1)"

text \<open>
  What a handler has written to its \<open>http.ResponseWriter\<close> when it returns:
  \<open>http.Error\<close> with a message and a status code, or the response of the upstream the
  proxy reached. A handler that returns having written nothing yields \<open>None\<close>.
\<close>

datatype response = HttpError string nat | Proxied url

definition StatusServiceUnavailable :: nat where
  "StatusServiceUnavailable = 503"

text \<open>
  What the handlers do to the outside, in order: a round trip of a proxy to its
  \<open>serverUrl\<close>, and a wait on \<open>time.After\<close> (in milliseconds).
\<close>

datatype event = Forward url | After nat

record world =
  serverPool :: ServerPool
  trace :: "event list"

text \<open>
  The network is a parameter: \<open>rt k u\<close> tells whether the round trip to \<open>u\<close> made
  when \<open>k\<close> events have happened gets a response (\<open>True\<close>) or fails in the transport
  (\<open>False\<close>), in which case \<open>ReverseProxy.ServeHTTP\<close> calls the \<open>ErrorHandler\<close>.
\<close>

type_synonym transport = "nat \<Rightarrow> url \<Rightarrow> bool"

function lb :: "transport \<Rightarrow> Request \<Rightarrow> world \<Rightarrow> (panic + response option) \<times> world"
  and ServeHTTP ::
    "transport \<Rightarrow> url \<Rightarrow> Request \<Rightarrow> world \<Rightarrow> (panic + response option) \<times> world"
  and ErrorHandler ::
    "transport \<Rightarrow> url \<Rightarrow> Request \<Rightarrow> world \<Rightarrow> (panic + response option) \<times> world"
where
  "lb rt r w =
     (let attempts = GetAttemptsFromContext r in
      if attempts > 3 then
        (Inr (Some (HttpError ''servie not available'' StatusServiceUnavailable)), w)
      else
        (case GetNextPeer (serverPool w) of
           (Inl p, s') \<Rightarrow> (Inl p, w\<lparr>serverPool := s'\<rparr>)
         | (Inr None, s') \<Rightarrow> (Inr None, w\<lparr>serverPool := s'\<rparr>)
         | (Inr (Some peer), s') \<Rightarrow>
             ServeHTTP rt (ReverseProxy (backends s' ! peer)) r (w\<lparr>serverPool := s'\<rparr>)))"
| "ServeHTTP rt serverUrl r w =
     (let w' = w\<lparr>trace := trace w @ [Forward serverUrl]\<rparr> in
      if rt (length (trace w)) serverUrl then (Inr (Some (Proxied serverUrl)), w')
      else ErrorHandler rt serverUrl r w')"
| "ErrorHandler rt serverUrl request w =
     (let retries = GetRetryFromContext request in
      if retries < 3 then
        (let w' = w\<lparr>trace := trace w @ [After 10]\<rparr>;
             ctx = WithValue (Context request) Retry (retries + 1)
         in ServeHTTP rt serverUrl (WithContext request ctx) w')
      else
        (let w' = w\<lparr>serverPool := MarkBackendStatus (serverPool w) serverUrl False\<rparr>;
             attempts = GetAttemptsFromContext request;
             ctx = WithValue (Context request) Attempts (attempts + 1)
         in lb rt (WithContext request ctx) w'))"
  by pat_completeness auto

text \<open>
  The chain of calls ends: a failover raises \<open>attempts\<close>, which \<open>lb\<close> bounds by 3;
  between two failovers a retry raises \<open>retries\<close>, which the handler bounds by 3.
\<close>

termination
proof (relation "measures
    [\<lambda>x. case x of
        Inl (rt, r, w) \<Rightarrow> 2 * nat (4 - GetAttemptsFromContext r)
      | Inr (Inl (rt, u, r, w)) \<Rightarrow> max 1 (2 * nat (4 - GetAttemptsFromContext r) - 1)
      | Inr (Inr (rt, u, r, w)) \<Rightarrow> max 1 (2 * nat (4 - GetAttemptsFromContext r) - 1),
     \<lambda>x. case x of
        Inl (rt, r, w) \<Rightarrow> 0
      | Inr (Inl (rt, u, r, w)) \<Rightarrow> nat (3 - GetRetryFromContext r)
      | Inr (Inr (rt, u, r, w)) \<Rightarrow> nat (3 - GetRetryFromContext r),
     \<lambda>x. case x of
        Inl (rt, r, w) \<Rightarrow> 0
      | Inr (Inl (rt, u, r, w)) \<Rightarrow> 1
      | Inr (Inr (rt, u, r, w)) \<Rightarrow> 0]", goal_cases)
  case 1
  show ?case by simp
next
  case (2 rt r w attempts x y s' peer)
  then show ?case by simp
next
  case (3 rt serverUrl r w w')
  then show ?case by simp
next
  case (4 rt serverUrl request w retries w' ctx)
  then show ?case
    by (simp add: GetRetryFromContext_def GetAttemptsFromContext_def WithContext_def
        WithValue_def Value_def Attempts_def Retry_def)
next
  case (5 rt serverUrl request w retries w' attempts ctx)
  then show ?case
    by (auto simp: GetAttemptsFromContext_def WithContext_def WithValue_def Value_def
        Attempts_def split: option.splits)
qed

declare lb.simps [simp del] ServeHTTP.simps [simp del] ErrorHandler.simps [simp del]

section \<open>The health check\<close>

text \<open>
  \<open>net.DialTimeout\<close> is the outside world: \<open>dial k network address timeout\<close> is
  the error of the \<open>k\<close>-th dial of a sweep (\<open>None\<close> for \<open>nil\<close>, a connection).
  A \<open>time.Duration\<close> counts nanoseconds.
\<close>

type_synonym dialer = "nat \<Rightarrow> string \<Rightarrow> string \<Rightarrow> int \<Rightarrow> string option"

definition Second :: int where
  "Second = 1000000000"

definition isBackendAlive :: "dialer \<Rightarrow> nat \<Rightarrow> url \<Rightarrow> bool" where
  "isBackendAlive DialTimeout k u =
     (let timeout = 2 * Second in
      case DialTimeout k ''tcp'' (Host u) timeout of
        Some err \<Rightarrow> False
      | None \<Rightarrow> True)"

text \<open>The \<open>range\<close> loop of \<open>HealthCheck\<close>; \<open>k\<close> counts the dials made so far.\<close>

fun HealthCheck_loop :: "dialer \<Rightarrow> nat \<Rightarrow> Backend list \<Rightarrow> Backend list" where
  "HealthCheck_loop DialTimeout k [] = []"
| "HealthCheck_loop DialTimeout k (b # bs) =
     (let alive = isBackendAlive DialTimeout k (URL b)
      in SetAlive b alive # HealthCheck_loop DialTimeout (Suc k) bs)"

definition HealthCheck :: "dialer \<Rightarrow> ServerPool \<Rightarrow> ServerPool" where
  "HealthCheck DialTimeout s = s\<lparr>backends := HealthCheck_loop DialTimeout 0 (backends s)\<rparr>"

section \<open>Startup\<close>

text \<open>\<open>strings.Split\<close> for a separator of one character.\<close>

fun Split :: "string \<Rightarrow> char \<Rightarrow> string list" where
  "Split [] sep = [[]]"
| "Split (c # cs) sep =
     (if c = sep then [] # Split cs sep
      else (case Split cs sep of [] \<Rightarrow> [[c]] | t # ts \<Rightarrow> (c # t) # ts))"

text \<open>\<open>var serverPool ServerPool\<close>: the zero value, a \<open>nil\<close> slice and cursor 0.\<close>

definition var_serverPool :: ServerPool where
  "var_serverPool = \<lparr>backends = [], current = 0\<rparr>"

text \<open>
  How \<open>main\<close> goes on: \<open>log.Fatal\<close> ends the process; \<open>ListenAndServe\<close> blocks and
  serves every request with \<open>lb\<close> on the global pool (and ends in \<open>log.Fatal\<close> should
  it ever return); \<open>Returned\<close> is the end of \<open>main\<close>. \<open>Listening\<close> records the
  pool the handler sees and the \<open>serverUrl\<close> of the proxy built in that iteration.
  \<open>url.Parse\<close> is a parameter, \<open>None\<close> standing for its error.
\<close>

datatype process = Fatal | Listening ServerPool url | Returned

fun main_loop :: "(string \<Rightarrow> url option) \<Rightarrow> ServerPool \<Rightarrow> string list \<Rightarrow> process" where
  "main_loop Parse pool [] = Returned"
| "main_loop Parse pool (tok # tokens) =
     (case Parse tok of
        None \<Rightarrow> Fatal
      | Some serverUrl \<Rightarrow> Listening pool serverUrl)"

definition main :: "(string \<Rightarrow> url option) \<Rightarrow> string \<Rightarrow> process" where
  "main Parse serverList =
     (if length serverList = 0 then Fatal
      else main_loop Parse var_serverPool (Split serverList CHR '',''))"

section \<open>Notions the properties are stated with\<close>

text \<open>The \<open>n\<close> consecutive indices from \<open>start\<close>, wrapping around.\<close>

definition scan_order :: "nat \<Rightarrow> nat \<Rightarrow> nat list" where
  "scan_order n start = map (\<lambda>k. (start + k) mod n) [0..<n]"

text \<open>The first index in scan order whose backend is alive.\<close>

definition first_alive :: "Backend list \<Rightarrow> nat \<Rightarrow> nat option" where
  "first_alive bs start = List.find (\<lambda>j. Alive (bs ! j)) (scan_order (length bs) start)"

text \<open>
  \<open>atomic.AddUint64(addr, delta)\<close> is one indivisible step on the word at \<open>addr\<close>:
  it stores the sum and returns it. The pair is the value returned and the new content.
\<close>

definition AddUint64 :: "64 word \<Rightarrow> 64 word \<Rightarrow> 64 word \<times> 64 word" where
  "AddUint64 content delta = (content + delta, content + delta)"

text \<open>
  Concurrent callers of \<open>NextIndex\<close>. The call touches shared memory once, in
  \<open>atomic.AddUint64\<close> (the slice of backends is never written after startup), so an
  execution of several concurrent calls is these calls taken in the order in which their
  additions take effect. \<open>NextIndex_interleaved\<close> runs the callers in that order and
  pairs each caller with what it got.
\<close>

fun NextIndex_interleaved ::
  "'t list \<Rightarrow> ServerPool \<Rightarrow> ('t \<times> (panic + nat)) list \<times> ServerPool" where
  "NextIndex_interleaved [] s = ([], s)"
| "NextIndex_interleaved (t # ts) s =
     (case NextIndex s of
        (r, s') \<Rightarrow>
          (case NextIndex_interleaved ts s' of (rs, s'') \<Rightarrow> ((t, r) # rs, s'')))"

text \<open>\<open>k\<close> calls of \<open>GetNextPeer\<close>, one after the other, and what each returned.\<close>

fun GetNextPeer_calls :: "nat \<Rightarrow> ServerPool \<Rightarrow> (panic + nat option) list \<times> ServerPool" where
  "GetNextPeer_calls 0 s = ([], s)"
| "GetNextPeer_calls (Suc k) s =
     (case GetNextPeer s of
        (r, s') \<Rightarrow> (case GetNextPeer_calls k s' of (rs, s'') \<Rightarrow> (r # rs, s'')))"

text \<open>The upstreams a request was forwarded to, in order, one entry per round trip.\<close>

fun forwarded :: "event list \<Rightarrow> url list" where
  "forwarded [] = []"
| "forwarded (Forward u # es) = u # forwarded es"
| "forwarded (After d # es) = forwarded es"

text \<open>A network on which every round trip fails.\<close>

definition always_fails :: transport where
  "always_fails = (\<lambda>k u. False)"

text \<open>
  A pool as registration is meant to build it: the proxy of each backend forwards to
  the backend's own url, and no two backends have the same url string.
\<close>

definition registered :: "Backend list \<Rightarrow> bool" where
  "registered bs \<longleftrightarrow>
     list_all (\<lambda>b. ReverseProxy b = URL b) bs \<and> distinct (map (\<lambda>b. String (URL b)) bs)"

text \<open>Backends and requests for the concrete runs below.\<close>

definition server :: "string \<Rightarrow> url" where
  "server h = \<lparr>String = ''http://'' @ h, Host = h\<rparr>"

definition backend :: "string \<Rightarrow> bool \<Rightarrow> Backend" where
  "backend h alive = \<lparr>URL = server h, Alive = alive, ReverseProxy = server h\<rparr>"

definition pool :: "(string \<times> bool) list \<Rightarrow> 64 word \<Rightarrow> ServerPool" where
  "pool hs c = \<lparr>backends = map (\<lambda>(h, alive). backend h alive) hs, current = c\<rparr>"

definition fresh :: Request where
  "fresh = \<lparr>Context = Map.empty\<rparr>"

definition serving :: "ServerPool \<Rightarrow> world" where
  "serving s = \<lparr>serverPool = s, trace = []\<rparr>"

section \<open>Selecting the next peer\<close>

subsection \<open>The scan loop finds the first alive backend in scan order\<close>

lemma mod_eq_start_iff:
  fixes n :: nat
  assumes "next < n" "next \<le> i" "i < n + next"
  shows "i mod n = next \<longleftrightarrow> i = next"
proof (cases "i < n")
  case True
  then show ?thesis by simp
next
  case False
  then have "n \<le> i" by simp
  then have "i mod n = (i - n) mod n" by (simp add: le_mod_geq)
  also have "\<dots> = i - n" using assms False by simp
  finally show ?thesis using assms False by auto
qed

lemma GetNextPeer_loop_find:
  assumes "next < length (backends s)" "l = length (backends s) + next" "next \<le> i"
  shows "GetNextPeer_loop next l i s =
    (case List.find (\<lambda>j. Alive (backends s ! j)) (map (\<lambda>i. i mod length (backends s)) [i..<l]) of
       None \<Rightarrow> (Inr None, s)
     | Some idx \<Rightarrow> (Inr (Some idx), if idx \<noteq> next then s\<lparr>current := of_nat idx\<rparr> else s))"
  using assms
proof (induction "next" l i s rule: GetNextPeer_loop.induct)
  case (1 "next" l i s)
  show ?case
  proof (cases "i < l")
    case False
    then show ?thesis by (simp add: GetNextPeer_loop.simps)
  next
    case True
    let ?n = "length (backends s)"
    have n: "0 < ?n" using "1.prems" by (cases "backends s") auto
    have idx: "i mod ?n < ?n" using n by simp
    have upt: "[i..<l] = i # [Suc i..<l]" using True by (simp add: upt_conv_Cons)
    show ?thesis
    proof (cases "Alive (backends s ! (i mod ?n))")
      case alive: True
      have "i mod ?n = next \<longleftrightarrow> i = next"
        using mod_eq_start_iff "1.prems" True by simp
      then show ?thesis
        using True n idx alive by (subst GetNextPeer_loop.simps) (simp add: upt IsAlive_def Let_def)
    next
      case dead: False
      have "GetNextPeer_loop next l i s = GetNextPeer_loop next l (i + 1) s"
        using True n idx dead by (subst GetNextPeer_loop.simps) (simp add: IsAlive_def Let_def)
      also have "\<dots> = (case List.find (\<lambda>j. Alive (backends s ! j)) (map (\<lambda>i. i mod ?n) [i + 1..<l]) of
         None \<Rightarrow> (Inr None, s)
       | Some idx \<Rightarrow> (Inr (Some idx), if idx \<noteq> next then s\<lparr>current := of_nat idx\<rparr> else s))"
        using "1.IH"[of "i mod ?n"] True n idx dead "1.prems" by (simp add: IsAlive_def)
      finally show ?thesis using dead by (simp add: upt)
    qed
  qed
qed

lemma scan_order_upt: "map (\<lambda>i. i mod n) [start..<n + start] = scan_order n start"
proof -
  have "[start..<n + start] = map (\<lambda>k. k + start) [0..<n]"
    by (simp add: map_add_upt)
  then show ?thesis by (simp add: scan_order_def o_def add.commute)
qed

lemma GetNextPeer_nonempty:
  assumes "backends s \<noteq> []"
  shows "GetNextPeer s =
    (let start = unat (current s + 1) mod length (backends s); s' = s\<lparr>current := current s + 1\<rparr> in
     case first_alive (backends s) start of
       None \<Rightarrow> (Inr None, s')
     | Some idx \<Rightarrow> (Inr (Some idx), if idx \<noteq> start then s'\<lparr>current := of_nat idx\<rparr> else s'))"
proof -
  let ?n = "length (backends s)"
  let ?start = "unat (current s + 1) mod ?n"
  let ?s' = "s\<lparr>current := current s + 1\<rparr>"
  have n: "0 < ?n" using assms by simp
  have ni: "NextIndex s = (Inr ?start, ?s')" using n by (simp add: NextIndex_def Let_def)
  have "GetNextPeer s = GetNextPeer_loop ?start (?n + ?start) ?start ?s'"
    by (simp add: GetNextPeer_def ni)
  also have "\<dots> = (case List.find (\<lambda>j. Alive (backends ?s' ! j)) (map (\<lambda>i. i mod length (backends ?s')) [?start..<?n + ?start]) of
       None \<Rightarrow> (Inr None, ?s')
     | Some idx \<Rightarrow> (Inr (Some idx), if idx \<noteq> ?start then ?s'\<lparr>current := of_nat idx\<rparr> else ?s'))"
    by (rule GetNextPeer_loop_find) (use n in simp_all)
  finally show ?thesis
    by (simp add: first_alive_def scan_order_upt Let_def)
qed

lemma GetNextPeer_empty: "backends s = [] \<Longrightarrow> GetNextPeer s = (Inl DivideByZero, s\<lparr>current := current s + 1\<rparr>)"
  by (simp add: GetNextPeer_def NextIndex_def Let_def)

lemma set_scan_order: "0 < n \<Longrightarrow> set (scan_order n start) \<subseteq> {0..<n}"
  by (auto simp: scan_order_def)

lemma first_alive_Some: "first_alive bs start = Some idx \<Longrightarrow> idx < length bs \<and> Alive (bs ! idx)"
  by (cases "bs = []") (auto simp: first_alive_def scan_order_def find_Some_iff)

text \<open>
  What \<open>first_alive\<close> returns, spelled out: the index at the first of the \<open>n\<close>
  scan positions whose backend is alive.
\<close>

lemma first_alive_Some_iff:
  "first_alive bs start = Some idx \<longleftrightarrow>
     (\<exists>k<length bs. idx = (start + k) mod length bs \<and> Alive (bs ! idx) \<and>
        (\<forall>k'<k. \<not> Alive (bs ! ((start + k') mod length bs))))"
  by (auto simp: first_alive_def scan_order_def find_Some_iff)

lemma add_mod_inj_le:
  fixes n :: nat
  assumes "(a + k) mod n = (a + k') mod n" "k \<le> k'" "k' < n"
  shows "k = k'"
proof -
  have le: "a + k \<le> a + k'" using assms by simp
  have eq: "(a + k') mod n = (a + k) mod n" using assms by simp
  have "n dvd (a + k') - (a + k)"
    using mod_eq_dvd_iff_nat[OF le, of n] eq by blast
  then have "n dvd k' - k" by simp
  moreover have "k' - k < n" using assms by simp
  ultimately have "k' - k = 0" using nat_dvd_not_less by blast
  then show ?thesis using assms by simp
qed

lemma add_mod_inj:
  fixes n :: nat
  assumes "(a + k) mod n = (a + k') mod n" "k < n" "k' < n"
  shows "k = k'"
proof (cases "k \<le> k'")
  case True
  then show ?thesis using assms add_mod_inj_le by blast
next
  case False
  then have "k' \<le> k" by simp
  then show ?thesis using assms add_mod_inj_le[of a k' n k] by simp
qed

lemma distinct_scan_order: "distinct (scan_order n start)"
  unfolding scan_order_def
  by (auto simp: distinct_map inj_on_def dest: add_mod_inj)

lemma set_scan_order_eq: "0 < n \<Longrightarrow> set (scan_order n start) = {0..<n}"
proof -
  assume n: "0 < n"
  have "card (set (scan_order n start)) = n"
    using distinct_card[OF distinct_scan_order, of n start] by (simp add: scan_order_def)
  moreover have "set (scan_order n start) \<subseteq> {0..<n}" using n by (rule set_scan_order)
  ultimately show ?thesis by (simp add: card_subset_eq)
qed

lemma first_alive_None: "first_alive bs start = None \<longleftrightarrow> list_all (\<lambda>b. \<not> Alive b) bs"
proof (cases "bs = []")
  case True
  then show ?thesis by (simp add: first_alive_def scan_order_def)
next
  case False
  then have "set (scan_order (length bs) start) = {0..<length bs}"
    by (simp add: set_scan_order_eq)
  then show ?thesis
    by (simp add: first_alive_def find_None_iff list_all_length)
qed

lemma first_alive_start:
  assumes "start < length bs" "Alive (bs ! start)"
  shows "first_alive bs start = Some start"
proof -
  have "0 < length bs" using assms(1) by (cases bs) simp_all
  then have "[0..<length bs] = 0 # [Suc 0..<length bs]" by (rule upt_conv_Cons)
  then show ?thesis using assms by (simp add: first_alive_def scan_order_def)
qed

lemma GetNextPeer_all_alive:
  assumes "backends s \<noteq> []" "list_all Alive (backends s)"
  shows "GetNextPeer s =
    (Inr (Some (unat (current s + 1) mod length (backends s))), s\<lparr>current := current s + 1\<rparr>)"
proof -
  let ?start = "unat (current s + 1) mod length (backends s)"
  have lt: "?start < length (backends s)" using assms by simp
  then have "Alive (backends s ! ?start)" using assms by (simp add: list_all_length)
  then have "first_alive (backends s) ?start = Some ?start"
    using lt by (rule first_alive_start[rotated])
  then show ?thesis using assms by (simp add: GetNextPeer_nonempty Let_def)
qed

lemma GetNextPeer_calls_all_alive:
  assumes "backends s \<noteq> []" "list_all Alive (backends s)"
  shows "GetNextPeer_calls k s =
    (map (\<lambda>i. Inr (Some (unat (current s + 1 + of_nat i) mod length (backends s)))) [0..<k],
     s\<lparr>current := current s + of_nat k\<rparr>)"
  using assms
proof (induction k arbitrary: s)
  case 0
  then show ?case by simp
next
  case (Suc k)
  let ?s' = "s\<lparr>current := current s + 1\<rparr>"
  have step: "GetNextPeer s = (Inr (Some (unat (current s + 1) mod length (backends s))), ?s')"
    using Suc.prems by (rule GetNextPeer_all_alive)
  have rest: "GetNextPeer_calls k ?s' =
    (map (\<lambda>i. Inr (Some (unat (current ?s' + 1 + of_nat i) mod length (backends ?s')))) [0..<k],
     ?s'\<lparr>current := current ?s' + of_nat k\<rparr>)"
    using Suc.prems by (intro Suc.IH) simp_all
  have "[0..<Suc k] = 0 # [Suc 0..<Suc k]" by (rule upt_conv_Cons) simp
  then have upt: "[0..<Suc k] = 0 # map Suc [0..<k]" by (simp only: map_Suc_upt)
  have rest': "GetNextPeer_calls k ?s' =
    (map (\<lambda>i. Inr (Some (unat (current s + 1 + of_nat (Suc i)) mod length (backends s)))) [0..<k],
     s\<lparr>current := current s + of_nat (Suc k)\<rparr>)"
    using rest by (simp add: ac_simps)
  have "GetNextPeer_calls (Suc k) s =
    (Inr (Some (unat (current s + 1) mod length (backends s))) # fst (GetNextPeer_calls k ?s'),
     snd (GetNextPeer_calls k ?s'))"
    by (simp add: step split: prod.splits)
  also have "\<dots> =
    (map (\<lambda>i. Inr (Some (unat (current s + 1 + of_nat i) mod length (backends s)))) (0 # map Suc [0..<k]),
     s\<lparr>current := current s + of_nat (Suc k)\<rparr>)"
    unfolding rest' by (simp add: o_def)
  finally show ?case unfolding upt .
qed

lemma unat_cursor_mod:
  fixes c :: "64 word"
  assumes "unat c + m < 2 ^ 64 \<or> n dvd (2 ^ 64 :: nat)"
  shows "unat (c + of_nat m) mod n = (unat c + m) mod n"
proof -
  have u: "unat (c + of_nat m) = (unat c + m) mod 2 ^ 64"
    by (simp add: unat_word_ariths unat_of_nat mod_simps)
  from assms show ?thesis
  proof
    assume "unat c + m < 2 ^ 64"
    then show ?thesis using u by simp
  next
    assume "n dvd (2 ^ 64 :: nat)"
    then show ?thesis using u by (simp add: mod_mod_cancel)
  qed
qed

subsection \<open>Results about \<open>NextIndex\<close> and \<open>GetNextPeer\<close>\<close>

text \<open>
  C10. On an empty pool \<open>NextIndex\<close> takes the remainder by zero and panics, and so
  does \<open>GetNextPeer\<close>. On a non-empty pool \<open>NextIndex\<close> returns an index below
  the length, and \<open>GetNextPeer\<close> returns without a panic (neither the remainder nor
  a slice read of the scan fails) either no backend or an index below the length.
\<close>

theorem NextIndex_needs_nonempty_pool:
  "(backends s = [] \<longrightarrow>
      fst (NextIndex s) = Inl DivideByZero \<and> fst (GetNextPeer s) = Inl DivideByZero) \<and>
   (backends s \<noteq> [] \<longrightarrow>
      (\<exists>i<length (backends s). fst (NextIndex s) = Inr i) \<and>
      (\<exists>r. fst (GetNextPeer s) = Inr r \<and> (\<forall>idx. r = Some idx \<longrightarrow> idx < length (backends s))))"
proof (intro conjI impI)
  assume e: "backends s = []"
  show "fst (NextIndex s) = Inl DivideByZero" using e by (simp add: NextIndex_def Let_def)
  show "fst (GetNextPeer s) = Inl DivideByZero" using e by (simp add: GetNextPeer_empty)
next
  assume ne: "backends s \<noteq> []"
  show "\<exists>i<length (backends s). fst (NextIndex s) = Inr i"
    using ne by (simp add: NextIndex_def Let_def)
  show "\<exists>r. fst (GetNextPeer s) = Inr r \<and> (\<forall>idx. r = Some idx \<longrightarrow> idx < length (backends s))"
    using ne
    by (auto simp: GetNextPeer_nonempty Let_def split: option.splits dest: first_alive_Some)
qed

theorem NextIndex_needs_nonempty_pool_witness:
  "fst (NextIndex var_serverPool) = Inl DivideByZero \<and>
   fst (GetNextPeer var_serverPool) = Inl DivideByZero \<and>
   (\<exists>i<2. fst (NextIndex (pool [(''b1'', False), (''b2'', True)] 4)) = Inr i) \<and>
   (\<exists>r. fst (GetNextPeer (pool [(''b1'', False), (''b2'', True)] 4)) = Inr r \<and>
        (\<forall>idx. r = Some idx \<longrightarrow> idx < 2))"
  using NextIndex_needs_nonempty_pool [of var_serverPool]
    NextIndex_needs_nonempty_pool [of "pool [(''b1'', False), (''b2'', True)] 4"]
  by (simp add: var_serverPool_def pool_def numeral_2_eq_2)

text \<open>
  Concurrent calls of \<open>NextIndex\<close> on a non-empty pool: the caller whose addition
  takes effect as the \<open>i\<close>-th (counted from 0) gets the cursor raised \<open>i + 1\<close>
  times, and the cursor ends raised once per caller.
\<close>

lemma NextIndex_interleaved_nonempty:
  assumes "backends s \<noteq> []"
  shows "NextIndex_interleaved ts s =
    (zip ts (map (\<lambda>i. Inr (unat (current s + 1 + of_nat i) mod length (backends s))) [0..<length ts]),
     s\<lparr>current := current s + of_nat (length ts)\<rparr>)"
  using assms
proof (induction ts arbitrary: s)
  case Nil
  then show ?case by simp
next
  case (Cons t ts)
  let ?n = "length (backends s)"
  let ?s' = "s\<lparr>current := current s + 1\<rparr>"
  have step: "NextIndex s = (Inr (unat (current s + 1) mod ?n), ?s')"
    using Cons.prems by (simp add: NextIndex_def Let_def)
  have rest: "NextIndex_interleaved ts ?s' =
    (zip ts (map (\<lambda>i. Inr (unat (current ?s' + 1 + of_nat i) mod length (backends ?s'))) [0..<length ts]),
     ?s'\<lparr>current := current ?s' + of_nat (length ts)\<rparr>)"
    using Cons.prems by (intro Cons.IH) simp
  have rest': "NextIndex_interleaved ts ?s' =
    (zip ts (map (\<lambda>i. Inr (unat (current s + 1 + of_nat (Suc i)) mod ?n)) [0..<length ts]),
     s\<lparr>current := current s + of_nat (length (t # ts))\<rparr>)"
    using rest by (simp add: ac_simps)
  have "[0..<length (t # ts)] = 0 # [Suc 0..<Suc (length ts)]" by (simp add: upt_conv_Cons del: upt_Suc)
  then have upt: "[0..<length (t # ts)] = 0 # map Suc [0..<length ts]" by (simp only: map_Suc_upt)
  have "NextIndex_interleaved (t # ts) s =
    ((t, Inr (unat (current s + 1) mod ?n)) # fst (NextIndex_interleaved ts ?s'),
     snd (NextIndex_interleaved ts ?s'))"
    by (simp add: step split: prod.splits)
  also have "\<dots> =
    (zip (t # ts) (map (\<lambda>i. Inr (unat (current s + 1 + of_nat i) mod ?n)) (0 # map Suc [0..<length ts])),
     s\<lparr>current := current s + of_nat (length (t # ts))\<rparr>)"
    unfolding rest' by (simp add: o_def)
  finally show ?case unfolding upt .
qed

text \<open>
  C1. On a non-empty pool of size \<open>n\<close>, \<open>NextIndex\<close> is the atomic addition: it
  stores the cursor plus one (modulo \<open>2^64\<close>) and returns \<open>start\<close>, the stored value
  modulo \<open>n\<close> (cursor 0 and \<open>n = 3\<close> give \<open>start = 1\<close>). The addition being one
  indivisible step, concurrent callers are served in the order in which their additions
  take effect; whatever that order, each caller gets its own value of the cursor and no
  increment is lost. \<open>GetNextPeer\<close> makes this step first and scans on the pool with the
  incremented cursor. It returns the first backend that is alive among the \<open>n\<close> indices
  \<open>start, start + 1, \<dots>\<close> taken modulo \<open>n\<close>, and none when no backend is alive. The
  cursor it leaves is the incremented one, unless the backend found is not the one at
  \<open>start\<close>: then it is the index of the backend found.
\<close>

theorem GetNextPeer_first_alive_from_start:
  "backends s \<noteq> [] \<Longrightarrow>
     (let n = length (backends s);
          start = unat (current s + 1) mod n;
          s1 = s\<lparr>current := current s + 1\<rparr>
      in
        NextIndex s = (Inr start, s1) \<and>
        NextIndex s =
          (Inr (unat (fst (AddUint64 (current s) 1)) mod n),
           s\<lparr>current := snd (AddUint64 (current s) 1)\<rparr>) \<and>
        (\<forall>ts. NextIndex_interleaved ts s =
           (zip ts (map (\<lambda>i. Inr (unat (current s + 1 + of_nat i) mod n)) [0..<length ts]),
            s\<lparr>current := current s + of_nat (length ts)\<rparr>)) \<and>
        GetNextPeer s = GetNextPeer_loop start (n + start) start s1 \<and>
        GetNextPeer s =
          (Inr (first_alive (backends s) start),
           (case first_alive (backends s) start of
              None \<Rightarrow> s1
            | Some idx \<Rightarrow> if idx \<noteq> start then s1\<lparr>current := of_nat idx\<rparr> else s1)) \<and>
        (\<forall>idx. fst (GetNextPeer s) = Inr (Some idx) \<longleftrightarrow>
           (\<exists>k<n. idx = (start + k) mod n \<and> Alive (backends s ! idx) \<and>
              (\<forall>k'<k. \<not> Alive (backends s ! ((start + k') mod n))))) \<and>
        (list_all (\<lambda>b. \<not> Alive b) (backends s) \<longrightarrow> GetNextPeer s = (Inr None, s1)) \<and>
        (current s = 0 \<and> n = 3 \<longrightarrow> start = 1))"
proof -
  assume ne: "backends s \<noteq> []"
  let ?n = "length (backends s)"
  let ?start = "unat (current s + 1) mod ?n"
  let ?s1 = "s\<lparr>current := current s + 1\<rparr>"
  have 1: "NextIndex s = (Inr ?start, ?s1)"
    using ne by (simp add: NextIndex_def Let_def)
  have 9: "NextIndex s =
      (Inr (unat (fst (AddUint64 (current s) 1)) mod ?n),
       s\<lparr>current := snd (AddUint64 (current s) 1)\<rparr>)"
    using 1 by (simp add: AddUint64_def)
  have 6: "\<forall>ts. NextIndex_interleaved ts s =
       (zip ts (map (\<lambda>i. Inr (unat (current s + 1 + of_nat i) mod ?n)) [0..<length ts]),
        s\<lparr>current := current s + of_nat (length ts)\<rparr>)"
    using ne by (simp add: NextIndex_interleaved_nonempty)
  have 7: "GetNextPeer s = GetNextPeer_loop ?start (?n + ?start) ?start ?s1"
    by (simp add: GetNextPeer_def 1)
  have 8: "GetNextPeer s =
      (Inr (first_alive (backends s) ?start),
       (case first_alive (backends s) ?start of
          None \<Rightarrow> ?s1
        | Some idx \<Rightarrow> if idx \<noteq> ?start then ?s1\<lparr>current := of_nat idx\<rparr> else ?s1))"
    using ne by (simp add: GetNextPeer_nonempty Let_def split: option.splits)
  have 2: "fst (GetNextPeer s) = Inr (first_alive (backends s) ?start)"
    by (subst 8) simp
  have 3: "list_all (\<lambda>b. \<not> Alive b) (backends s) \<longrightarrow> GetNextPeer s = (Inr None, ?s1)"
  proof
    assume "list_all (\<lambda>b. \<not> Alive b) (backends s)"
    then have "first_alive (backends s) ?start = None" by (simp add: first_alive_None)
    then show "GetNextPeer s = (Inr None, ?s1)" by (subst 8) simp
  qed
  have 4: "current s = 0 \<and> ?n = 3 \<longrightarrow> ?start = 1" by simp
  have 5: "\<forall>idx. fst (GetNextPeer s) = Inr (Some idx) \<longleftrightarrow>
      (\<exists>k<?n. idx = (?start + k) mod ?n \<and> Alive (backends s ! idx) \<and>
         (\<forall>k'<k. \<not> Alive (backends s ! ((?start + k') mod ?n))))"
    unfolding 2 by (simp add: first_alive_Some_iff)
  show ?thesis unfolding Let_def using 1 9 6 7 8 5 3 4 by (intro conjI)
qed

theorem GetNextPeer_first_alive_from_start_witness:
  "backends (pool [(''b1'', True), (''b2'', True), (''b3'', False)] 0) \<noteq> [] \<and>
   NextIndex (pool [(''b1'', True), (''b2'', True), (''b3'', False)] 0) =
     (Inr 1, pool [(''b1'', True), (''b2'', True), (''b3'', False)] 1) \<and>
   NextIndex_interleaved [''t1'', ''t2'', ''t3''] (pool [(''b1'', True), (''b2'', True), (''b3'', False)] 0) =
     ([(''t1'', Inr 1), (''t2'', Inr 2), (''t3'', Inr 0)],
      pool [(''b1'', True), (''b2'', True), (''b3'', False)] 3) \<and>
   GetNextPeer (pool [(''b1'', True), (''b2'', True), (''b3'', False)] 0) =
     (Inr (Some 1), pool [(''b1'', True), (''b2'', True), (''b3'', False)] 1) \<and>
   GetNextPeer (pool [(''b1'', True), (''b2'', False), (''b3'', False)] 0) =
     (Inr (Some 0), pool [(''b1'', True), (''b2'', False), (''b3'', False)] 0) \<and>
   list_all (\<lambda>b. \<not> Alive b) (backends (pool [(''b1'', False), (''b2'', False)] 5)) \<and>
   GetNextPeer (pool [(''b1'', False), (''b2'', False)] 5) =
     (Inr None, pool [(''b1'', False), (''b2'', False)] 6)"
proof -
  let ?p = "pool [(''b1'', True), (''b2'', True), (''b3'', False)] 0"
  let ?r = "pool [(''b1'', True), (''b2'', False), (''b3'', False)] 0"
  let ?q = "pool [(''b1'', False), (''b2'', False)] 5"
  have p: "backends ?p \<noteq> []" and r: "backends ?r \<noteq> []" and q: "backends ?q \<noteq> []"
    by (simp_all add: pool_def)
  have d: "list_all (\<lambda>b. \<not> Alive b) (backends ?q)"
    by (simp add: pool_def backend_def)
  note P = GetNextPeer_first_alive_from_start [OF p, unfolded Let_def]
  note R = GetNextPeer_first_alive_from_start [OF r, unfolded Let_def]
  note Q = GetNextPeer_first_alive_from_start [OF q, unfolded Let_def]
  have 1: "NextIndex ?p = (Inr 1, pool [(''b1'', True), (''b2'', True), (''b3'', False)] 1)"
    using P [THEN conjunct1] by (simp add: pool_def)
  have 2: "NextIndex_interleaved [''t1'', ''t2'', ''t3''] ?p =
     ([(''t1'', Inr 1), (''t2'', Inr 2), (''t3'', Inr 0)],
      pool [(''b1'', True), (''b2'', True), (''b3'', False)] 3)"
    using P [THEN conjunct2, THEN conjunct2, THEN conjunct1, THEN spec, of "[''t1'', ''t2'', ''t3'']"]
    by (simp add: pool_def upt_conv_Cons)
  have 3: "GetNextPeer ?p = (Inr (Some 1), pool [(''b1'', True), (''b2'', True), (''b3'', False)] 1)"
    using P [THEN conjunct2, THEN conjunct2, THEN conjunct2, THEN conjunct2, THEN conjunct1]
    by (simp add: first_alive_def scan_order_def pool_def backend_def upt_conv_Cons)
  have 4: "GetNextPeer ?r = (Inr (Some 0), pool [(''b1'', True), (''b2'', False), (''b3'', False)] 0)"
    using R [THEN conjunct2, THEN conjunct2, THEN conjunct2, THEN conjunct2, THEN conjunct1]
    by (simp add: first_alive_def scan_order_def pool_def backend_def upt_conv_Cons)
  have 5: "GetNextPeer ?q = (Inr None, pool [(''b1'', False), (''b2'', False)] 6)"
    using Q [THEN conjunct2, THEN conjunct2, THEN conjunct2, THEN conjunct2, THEN conjunct2,
        THEN conjunct2, THEN conjunct1] d
    by (simp add: pool_def)
  show ?thesis using p d 1 2 3 4 5 by (intro conjI)
qed

text \<open>
  C6, as amended. On a non-empty pool of size \<open>n\<close> whose backends are all alive,
  \<open>n\<close> calls in a row return every index exactly once, provided the cursor does not
  wrap around \<open>2^64\<close> during the calls or \<open>n\<close> divides \<open>2^64\<close>.
\<close>

theorem GetNextPeer_round_robin_coverage:
  assumes "backends s \<noteq> []" "list_all Alive (backends s)"
    and "unat (current s) + length (backends s) < 2 ^ 64 \<or> length (backends s) dvd (2 ^ 64 :: nat)"
  shows "\<exists>js. fst (GetNextPeer_calls (length (backends s)) s) = map (\<lambda>j. Inr (Some j)) js \<and>
           distinct js \<and> set js = {0..<length (backends s)}"
proof -
  let ?n = "length (backends s)"
  let ?js = "scan_order ?n (unat (current s) + 1)"
  have n: "0 < ?n" using assms(1) by simp
  have "unat (current s + 1 + of_nat i) mod ?n = (unat (current s) + 1 + i) mod ?n" if "i < ?n" for i
  proof -
    have "unat (current s) + (1 + i) < 2 ^ 64 \<or> ?n dvd (2 ^ 64 :: nat)"
      using assms(3) that by auto
    then have "unat (current s + of_nat (1 + i)) mod ?n = (unat (current s) + (1 + i)) mod ?n"
      by (rule unat_cursor_mod)
    then show ?thesis by (simp add: add.assoc)
  qed
  then have "fst (GetNextPeer_calls ?n s) = map (\<lambda>j. Inr (Some j)) ?js"
    using assms(1,2) by (simp add: GetNextPeer_calls_all_alive scan_order_def o_def)
  moreover have "distinct ?js" by (rule distinct_scan_order)
  moreover have "set ?js = {0..<?n}" using n by (rule set_scan_order_eq)
  ultimately show ?thesis by blast
qed

theorem GetNextPeer_round_robin_coverage_witness:
  "backends (pool [(''b1'', True), (''b2'', True), (''b3'', True)] 7) \<noteq> [] \<and>
   list_all Alive (backends (pool [(''b1'', True), (''b2'', True), (''b3'', True)] 7)) \<and>
   unat (7 :: 64 word) + 3 < 2 ^ 64 \<and>
   (\<exists>js. fst (GetNextPeer_calls 3 (pool [(''b1'', True), (''b2'', True), (''b3'', True)] 7)) =
          map (\<lambda>j. Inr (Some j)) js \<and> distinct js \<and> set js = {0..<3})"
proof -
  let ?p = "pool [(''b1'', True), (''b2'', True), (''b3'', True)] 7"
  have h1: "backends ?p \<noteq> []" by (simp add: pool_def)
  have h2: "list_all Alive (backends ?p)" by (simp add: pool_def backend_def)
  have h3: "unat (current ?p) + length (backends ?p) < 2 ^ 64 \<or> length (backends ?p) dvd (2 ^ 64 :: nat)"
    by (simp add: pool_def)
  have len: "length (backends ?p) = 3" by (simp add: pool_def)
  show ?thesis
    using GetNextPeer_round_robin_coverage [OF h1 h2 h3] h1 h2 unfolding len by simp
qed

lemma wrap_call_1:
  "GetNextPeer (pool [(''b1'', True), (''b2'', True), (''b3'', True)] 18446744073709551614) =
     (Inr (Some 0), pool [(''b1'', True), (''b2'', True), (''b3'', True)] 18446744073709551615)"
  by (simp add: GetNextPeer_def NextIndex_def GetNextPeer_loop.simps IsAlive_def pool_def backend_def)

lemma wrap_call_2:
  "GetNextPeer (pool [(''b1'', True), (''b2'', True), (''b3'', True)] 18446744073709551615) =
     (Inr (Some 0), pool [(''b1'', True), (''b2'', True), (''b3'', True)] 0)"
  by (simp add: GetNextPeer_def NextIndex_def GetNextPeer_loop.simps IsAlive_def pool_def backend_def)

lemma wrap_call_3:
  "GetNextPeer (pool [(''b1'', True), (''b2'', True), (''b3'', True)] 0) =
     (Inr (Some 1), pool [(''b1'', True), (''b2'', True), (''b3'', True)] 1)"
  by (simp add: GetNextPeer_def NextIndex_def GetNextPeer_loop.simps IsAlive_def pool_def backend_def)

text \<open>
  With three backends, all alive, and the cursor at \<open>2^64 - 2\<close> the three calls
  return index 0 twice and index 2 never.
\<close>

theorem GetNextPeer_round_robin_wraps_counterexample:
  "fst (GetNextPeer_calls 3 (pool [(''b1'', True), (''b2'', True), (''b3'', True)] 18446744073709551614))
     = [Inr (Some 0), Inr (Some 0), Inr (Some 1)]"
  by (simp add: numeral_3_eq_3 wrap_call_1 wrap_call_2 wrap_call_3)

lemma current_MarkBackendStatus: "current (MarkBackendStatus s u a) = current s"
  by (simp add: MarkBackendStatus_def)

lemma current_HealthCheck: "current (HealthCheck d s) = current s"
  by (simp add: HealthCheck_def)

text \<open>
  C8, as amended. \<open>MarkBackendStatus\<close> and \<open>HealthCheck\<close> leave the cursor as it
  is. After \<open>GetNextPeer\<close> the cursor is the old value plus one (modulo \<open>2^64\<close>),
  unless the backend returned is not the one at the starting index: then the cursor is
  that backend's index. So the cursor grows in every call that returns the backend at
  the starting index or none, as long as it is not at \<open>2^64 - 1\<close>.
\<close>

theorem cursor_after_pool_operations:
  "current (MarkBackendStatus s u a) = current s \<and>
   current (HealthCheck d s) = current s \<and>
   current (snd (GetNextPeer s)) =
     (case fst (GetNextPeer s) of
        Inr (Some idx) \<Rightarrow>
          if idx = unat (current s + 1) mod length (backends s) then current s + 1 else of_nat idx
      | _ \<Rightarrow> current s + 1) \<and>
   (current s \<noteq> - 1 \<and>
    (\<forall>idx. fst (GetNextPeer s) = Inr (Some idx) \<longrightarrow> idx = unat (current s + 1) mod length (backends s))
    \<longrightarrow> current s < current (snd (GetNextPeer s)))"
proof -
  have 3: "current (snd (GetNextPeer s)) =
     (case fst (GetNextPeer s) of
        Inr (Some idx) \<Rightarrow>
          if idx = unat (current s + 1) mod length (backends s) then current s + 1 else of_nat idx
      | _ \<Rightarrow> current s + 1)"
  proof (cases "backends s = []")
    case True
    then show ?thesis by (simp add: GetNextPeer_empty)
  next
    case False
    then show ?thesis by (simp add: GetNextPeer_nonempty Let_def split: option.splits)
  qed
  have 4: "current s < current s + 1" if "current s \<noteq> - 1"
  proof -
    have "1 + current s \<noteq> 0" using that max_word_wrap[of "current s"] by (auto simp: add.commute)
    then have "unat (1 + current s) = Suc (unat (current s))" by (rule unatSuc)
    then show ?thesis by (simp add: word_less_nat_alt add.commute)
  qed
  show ?thesis using 3 4
    by (auto simp: current_MarkBackendStatus current_HealthCheck split: sum.splits option.splits)
qed

theorem cursor_after_pool_operations_witness:
  "current (pool [(''b1'', True), (''b2'', True), (''b3'', False)] 0) \<noteq> - 1 \<and>
   fst (GetNextPeer (pool [(''b1'', True), (''b2'', True), (''b3'', False)] 0)) = Inr (Some 1) \<and>
   current (pool [(''b1'', True), (''b2'', True), (''b3'', False)] 0)
     < current (snd (GetNextPeer (pool [(''b1'', True), (''b2'', True), (''b3'', False)] 0)))"
  using cursor_after_pool_operations [of "pool [(''b1'', True), (''b2'', True), (''b3'', False)] 0"]
  by (simp add: GetNextPeer_def NextIndex_def GetNextPeer_loop.simps IsAlive_def pool_def backend_def)

text \<open>
  With only the first of three backends alive and the cursor at 100, the scan starts at
  index 2, finds index 0 and stores it: the cursor falls from 100 to 0.
\<close>

theorem cursor_decreases_counterexample:
  "current (snd (GetNextPeer (pool [(''b1'', True), (''b2'', False), (''b3'', False)] 100)))
     < current (pool [(''b1'', True), (''b2'', False), (''b3'', False)] 100)"
  by (simp add: GetNextPeer_def NextIndex_def GetNextPeer_loop.simps IsAlive_def pool_def backend_def)

section \<open>The health check sweeps the whole pool\<close>

lemma HealthCheck_loop_length: "length (HealthCheck_loop dial k bs) = length bs"
  by (induction bs arbitrary: k) (simp_all add: Let_def)

lemma HealthCheck_loop_nth:
  "i < length bs \<Longrightarrow>
   HealthCheck_loop dial k bs ! i =
     (bs ! i)\<lparr>Alive := (dial (k + i) ''tcp'' (Host (URL (bs ! i))) (2 * Second) = None)\<rparr>"
proof (induction bs arbitrary: k i)
  case Nil
  then show ?case by simp
next
  case (Cons b bs)
  show ?case
  proof (cases i)
    case 0
    then show ?thesis
      by (simp add: Let_def isBackendAlive_def SetAlive_def split: option.splits)
  next
    case (Suc j)
    then show ?thesis using Cons.prems Cons.IH[of j "Suc k"] by (simp add: Let_def)
  qed
qed

text \<open>
  C9. A sweep keeps the length and the cursor of the pool and writes every backend:
  the \<open>i\<close>-th dial of the sweep goes over \<open>tcp\<close> to the host of the \<open>i\<close>-th
  backend with a timeout of two seconds, and the \<open>i\<close>-th backend is set alive exactly
  when that dial returns no error.
\<close>

theorem HealthCheck_full_sweep:
  "length (backends (HealthCheck dial s)) = length (backends s) \<and>
   current (HealthCheck dial s) = current s \<and>
   (\<forall>i<length (backends s).
      backends (HealthCheck dial s) ! i =
        SetAlive (backends s ! i) (dial i ''tcp'' (Host (URL (backends s ! i))) (2 * Second) = None)) \<and>
   2 * Second = 2000000000"
  by (simp add: HealthCheck_def HealthCheck_loop_length HealthCheck_loop_nth SetAlive_def Second_def)

theorem HealthCheck_full_sweep_witness:
  "map Alive (backends (HealthCheck
      (\<lambda>k network address timeout.
         if network = ''tcp'' \<and> address = ''b3'' \<and> timeout = 2000000000 then Some ''i/o timeout'' else None)
      (pool [(''b1'', False), (''b2'', True), (''b3'', True)] 5)))
   = [True, True, False]"
proof -
  let ?d = "\<lambda>(k::nat) network address (timeout::int).
         if network = ''tcp'' \<and> address = ''b3'' \<and> timeout = 2000000000 then Some ''i/o timeout'' else None"
  let ?s = "pool [(''b1'', False), (''b2'', True), (''b3'', True)] 5"
  have "length (backends (HealthCheck ?d ?s)) = 3"
    and "\<forall>i<3. Alive (backends (HealthCheck ?d ?s) ! i) =
        (?d i ''tcp'' (Host (URL (backends ?s ! i))) (2 * Second) = None)"
    using HealthCheck_full_sweep [of ?d ?s] by (simp_all add: SetAlive_def pool_def)
  then show ?thesis
    by (simp add: list_eq_iff_nth_eq less_Suc_eq numeral_3_eq_3 pool_def backend_def server_def
        Second_def all_conj_distrib)
qed

section \<open>Dispatching a request\<close>

subsection \<open>The steps of the dispatcher, the proxy and its error handler\<close>

lemma lb_guard:
  "3 < GetAttemptsFromContext r \<Longrightarrow>
   lb rt r w = (Inr (Some (HttpError ''servie not available'' StatusServiceUnavailable)), w)"
  by (subst lb.simps) (simp add: Let_def)

lemma lb_peer:
  "\<not> 3 < GetAttemptsFromContext r \<Longrightarrow> GetNextPeer (serverPool w) = (Inr (Some peer), s') \<Longrightarrow>
   lb rt r w = ServeHTTP rt (ReverseProxy (backends s' ! peer)) r (w\<lparr>serverPool := s'\<rparr>)"
  by (subst lb.simps) (simp add: Let_def)

lemma lb_none:
  "\<not> 3 < GetAttemptsFromContext r \<Longrightarrow> GetNextPeer (serverPool w) = (Inr None, s') \<Longrightarrow>
   lb rt r w = (Inr None, w\<lparr>serverPool := s'\<rparr>)"
  by (subst lb.simps) (simp add: Let_def)

lemma lb_panic:
  "\<not> 3 < GetAttemptsFromContext r \<Longrightarrow> GetNextPeer (serverPool w) = (Inl p, s') \<Longrightarrow>
   lb rt r w = (Inl p, w\<lparr>serverPool := s'\<rparr>)"
  by (subst lb.simps) (simp add: Let_def)

lemma ServeHTTP_ok:
  "rt (length (trace w)) u \<Longrightarrow>
   ServeHTTP rt u r w = (Inr (Some (Proxied u)), w\<lparr>trace := trace w @ [Forward u]\<rparr>)"
  by (subst ServeHTTP.simps) (simp add: Let_def)

lemma ErrorHandler_retry:
  "GetRetryFromContext r < 3 \<Longrightarrow>
   ErrorHandler rt u r w =
     ServeHTTP rt u (WithContext r (WithValue (Context r) Retry (GetRetryFromContext r + 1)))
       (w\<lparr>trace := trace w @ [After 10]\<rparr>)"
  by (subst ErrorHandler.simps) (simp add: Let_def)

lemma ErrorHandler_failover:
  "\<not> GetRetryFromContext r < 3 \<Longrightarrow>
   ErrorHandler rt u r w =
     lb rt (WithContext r (WithValue (Context r) Attempts (GetAttemptsFromContext r + 1)))
       (w\<lparr>serverPool := MarkBackendStatus (serverPool w) u False\<rparr>)"
  by (subst ErrorHandler.simps) (simp add: Let_def)

lemma ServeHTTP_fails:
  "\<not> rt (length (trace w)) u \<Longrightarrow>
   ServeHTTP rt u r w = ErrorHandler rt u r (w\<lparr>trace := trace w @ [Forward u]\<rparr>)"
  by (subst ServeHTTP.simps) (simp add: Let_def)

lemma attempts_after_retry:
  "GetAttemptsFromContext (WithContext r (WithValue (Context r) Retry v)) = GetAttemptsFromContext r"
  by (simp add: GetAttemptsFromContext_def WithContext_def WithValue_def Value_def Attempts_def Retry_def)

lemma retry_after_retry:
  "GetRetryFromContext (WithContext r (WithValue (Context r) Retry v)) = v"
  by (simp add: GetRetryFromContext_def WithContext_def WithValue_def Value_def Retry_def)

lemma attempts_after_failover:
  "GetAttemptsFromContext (WithContext r (WithValue (Context r) Attempts v)) = v"
  by (simp add: GetAttemptsFromContext_def WithContext_def WithValue_def Value_def Attempts_def)

lemma retry_after_failover:
  "GetRetryFromContext (WithContext r (WithValue (Context r) Attempts v)) = GetRetryFromContext r"
  by (simp add: GetRetryFromContext_def WithContext_def WithValue_def Value_def Attempts_def Retry_def)

lemma forwarded_append: "forwarded (xs @ ys) = forwarded xs @ forwarded ys"
  by (induction xs rule: forwarded.induct) simp_all

text \<open>One hop on a network where every round trip fails.\<close>

lemma ServeHTTP_always_fails:
  "\<exists>es r'. set (forwarded es) = {u} \<and>
      GetAttemptsFromContext r' = GetAttemptsFromContext r + 1 \<and>
      ServeHTTP always_fails u r w =
        lb always_fails r'
          (w\<lparr>trace := trace w @ es, serverPool := MarkBackendStatus (serverPool w) u False\<rparr>)"
proof (induction "nat (3 - GetRetryFromContext r)" arbitrary: r w)
  case 0
  then have hi: "\<not> GetRetryFromContext r < 3" by simp
  let ?r' = "WithContext r (WithValue (Context r) Attempts (GetAttemptsFromContext r + 1))"
  have "ServeHTTP always_fails u r w =
      lb always_fails ?r'
        (w\<lparr>trace := trace w @ [Forward u], serverPool := MarkBackendStatus (serverPool w) u False\<rparr>)"
    using hi by (simp add: ServeHTTP_fails ErrorHandler_failover always_fails_def)
  moreover have "set (forwarded [Forward u]) = {u}" by simp
  moreover have "GetAttemptsFromContext ?r' = GetAttemptsFromContext r + 1"
    by (rule attempts_after_failover)
  ultimately show ?case by blast
next
  case (Suc k)
  then have lo: "GetRetryFromContext r < 3" by simp
  let ?r1 = "WithContext r (WithValue (Context r) Retry (GetRetryFromContext r + 1))"
  let ?w1 = "w\<lparr>trace := trace w @ [Forward u, After 10]\<rparr>"
  have step: "ServeHTTP always_fails u r w = ServeHTTP always_fails u ?r1 ?w1"
    using lo by (simp add: ServeHTTP_fails ErrorHandler_retry always_fails_def)
  have "k = nat (3 - GetRetryFromContext ?r1)"
    using Suc.hyps(2) by (simp add: retry_after_retry)
  from Suc.hyps(1)[OF this, of ?w1] obtain es r' where
    es: "set (forwarded es) = {u}" and
    at: "GetAttemptsFromContext r' = GetAttemptsFromContext ?r1 + 1" and
    run: "ServeHTTP always_fails u ?r1 ?w1 =
        lb always_fails r'
          (?w1\<lparr>trace := trace ?w1 @ es, serverPool := MarkBackendStatus (serverPool ?w1) u False\<rparr>)"
    by blast
  have "ServeHTTP always_fails u r w =
        lb always_fails r'
          (w\<lparr>trace := trace w @ ([Forward u, After 10] @ es),
             serverPool := MarkBackendStatus (serverPool w) u False\<rparr>)"
    using step run by simp
  moreover have "set (forwarded ([Forward u, After 10] @ es)) = {u}" using es by simp
  moreover have "GetAttemptsFromContext r' = GetAttemptsFromContext r + 1"
    using at by (simp add: attempts_after_retry)
  ultimately show ?case by blast
qed

text \<open>The pool side of a hop.\<close>

lemma GetNextPeer_some_alive:
  assumes "\<not> list_all (\<lambda>b. \<not> Alive b) (backends s)"
  shows "\<exists>idx s'. GetNextPeer s = (Inr (Some idx), s') \<and> idx < length (backends s) \<and>
           Alive (backends s ! idx) \<and> backends s' = backends s"
proof -
  have ne: "backends s \<noteq> []" using assms by auto
  let ?start = "unat (current s + 1) mod length (backends s)"
  obtain idx where f: "first_alive (backends s) ?start = Some idx"
    using assms first_alive_None[of "backends s" ?start] by (cases "first_alive (backends s) ?start") auto
  then have "idx < length (backends s) \<and> Alive (backends s ! idx)" by (rule first_alive_Some)
  then show ?thesis using ne f by (simp add: GetNextPeer_nonempty Let_def)
qed

lemma MarkBackendStatus_loop_registered:
  assumes "distinct (map (\<lambda>b. String (URL b)) bs)" "idx < length bs"
  shows "MarkBackendStatus_loop bs (URL (bs ! idx)) alive = bs[idx := SetAlive (bs ! idx) alive]"
  using assms
proof (induction bs arbitrary: idx)
  case Nil
  then show ?case by simp
next
  case (Cons b bs)
  show ?case
  proof (cases idx)
    case 0
    then show ?thesis by simp
  next
    case (Suc j)
    then have "String (URL b) \<noteq> String (URL (bs ! j))"
      using Cons.prems by (auto simp: image_iff)
    then show ?thesis using Suc Cons by simp
  qed
qed

lemma nth_SetAlive_update:
  assumes "i < length bs"
  shows "URL (bs[idx := SetAlive (bs ! idx) alive] ! i) = URL (bs ! i)"
    and "ReverseProxy (bs[idx := SetAlive (bs ! idx) alive] ! i) = ReverseProxy (bs ! i)"
  using assms by (cases "i = idx"; simp add: SetAlive_def)+

lemma map_URL_update:
  "map URL (bs[idx := SetAlive (bs ! idx) alive]) = map URL bs"
  by (rule nth_equalityI) (simp_all add: nth_SetAlive_update)

lemma registered_update:
  assumes "registered bs"
  shows "registered (bs[idx := SetAlive (bs ! idx) alive])"
proof -
  let ?bs' = "bs[idx := SetAlive (bs ! idx) alive]"
  have "map (\<lambda>b. String (URL b)) ?bs' = map String (map URL ?bs')" by simp
  also have "\<dots> = map (\<lambda>b. String (URL b)) bs" unfolding map_URL_update by simp
  finally have d: "distinct (map (\<lambda>b. String (URL b)) ?bs')"
    using assms by (simp add: registered_def)
  have "list_all (\<lambda>b. ReverseProxy b = URL b) ?bs'"
    using assms by (simp add: registered_def list_all_length nth_SetAlive_update)
  then show ?thesis using d by (simp add: registered_def)
qed

text \<open>The indices of the backends that are alive.\<close>

lemma alive_count:
  "length (filter Alive bs) = card {i. i < length bs \<and> Alive (bs ! i)}"
  by (rule length_filter_conv_card)

lemma alive_after_mark:
  assumes "idx < length bs"
  shows "{i. i < length (bs[idx := SetAlive (bs ! idx) False]) \<and>
             Alive (bs[idx := SetAlive (bs ! idx) False] ! i)} =
         {i. i < length bs \<and> Alive (bs ! i)} - {idx}"
  using assms by (auto simp: nth_list_update SetAlive_def)

lemma alive_count_after_mark:
  assumes "idx < length bs" "Alive (bs ! idx)"
  shows "length (filter Alive (bs[idx := SetAlive (bs ! idx) False])) = length (filter Alive bs) - 1"
proof -
  have "idx \<in> {i. i < length bs \<and> Alive (bs ! i)}" using assms by simp
  then show ?thesis
    unfolding alive_count alive_after_mark[OF assms(1)] by simp
qed

lemma some_alive: "0 < length (filter Alive bs) \<Longrightarrow> \<not> list_all (\<lambda>b. \<not> Alive b) bs"
  by (induction bs) auto

text \<open>
  A hop of the dispatcher on a registered pool with a backend alive, every round trip
  failing: one backend is chosen, forwarded to, marked dead, and the dispatcher is
  entered again with one more attempt.
\<close>

lemma lb_hop:
  assumes reg: "registered (backends (serverPool w))"
    and alive: "0 < length (filter Alive (backends (serverPool w)))"
    and att: "\<not> 3 < GetAttemptsFromContext r"
  shows "\<exists>idx es r' w'.
      idx < length (backends (serverPool w)) \<and> Alive (backends (serverPool w) ! idx) \<and>
      set (forwarded es) = {URL (backends (serverPool w) ! idx)} \<and>
      GetAttemptsFromContext r' = GetAttemptsFromContext r + 1 \<and>
      backends (serverPool w') =
        (backends (serverPool w))[idx := SetAlive (backends (serverPool w) ! idx) False] \<and>
      trace w' = trace w @ es \<and>
      lb always_fails r w = lb always_fails r' w'"
proof -
  let ?bs = "backends (serverPool w)"
  obtain idx s' where
    sel: "GetNextPeer (serverPool w) = (Inr (Some idx), s')" and
    idx: "idx < length ?bs" and al: "Alive (?bs ! idx)" and same: "backends s' = ?bs"
    using GetNextPeer_some_alive[OF some_alive[OF alive]] by blast
  let ?u = "URL (?bs ! idx)"
  have proxy: "ReverseProxy (backends s' ! idx) = ?u"
    using reg idx same by (simp add: registered_def list_all_length)
  let ?w1 = "w\<lparr>serverPool := s'\<rparr>"
  have "lb always_fails r w = ServeHTTP always_fails ?u r ?w1"
    using lb_peer[OF att sel] proxy by simp
  moreover obtain es r' where
    es: "set (forwarded es) = {?u}" and
    at: "GetAttemptsFromContext r' = GetAttemptsFromContext r + 1" and
    run: "ServeHTTP always_fails ?u r ?w1 =
        lb always_fails r'
          (?w1\<lparr>trace := trace ?w1 @ es, serverPool := MarkBackendStatus (serverPool ?w1) ?u False\<rparr>)"
    using ServeHTTP_always_fails[of ?u r ?w1] by blast
  let ?w' = "?w1\<lparr>trace := trace ?w1 @ es, serverPool := MarkBackendStatus (serverPool ?w1) ?u False\<rparr>"
  have "backends (serverPool ?w') = ?bs[idx := SetAlive (?bs ! idx) False]"
    using MarkBackendStatus_loop_registered[of ?bs idx False] reg idx same
    by (simp add: MarkBackendStatus_def registered_def)
  moreover have "trace ?w' = trace w @ es" by simp
  ultimately show ?thesis using idx al es at run by metis
qed

lemma alive_after_mark_neq:
  assumes "idx < length bs" "Alive (bs[idx := SetAlive (bs ! idx) False] ! j)"
  shows "j \<noteq> idx" and "Alive (bs ! j)"
  using assms by (cases "j = idx"; simp add: SetAlive_def)+

lemma registered_urls_distinct:
  assumes "registered bs" "i < length bs" "j < length bs" "i \<noteq> j"
  shows "URL (bs ! i) \<noteq> URL (bs ! j)"
proof
  assume "URL (bs ! i) = URL (bs ! j)"
  then have "map (\<lambda>b. String (URL b)) bs ! i = map (\<lambda>b. String (URL b)) bs ! j"
    using assms by simp
  moreover have "distinct (map (\<lambda>b. String (URL b)) bs)" using assms by (simp add: registered_def)
  ultimately show False
    using assms nth_eq_iff_index_eq[of "map (\<lambda>b. String (URL b)) bs" i j] by simp
qed

lemma lb_three_hops:
  assumes reg: "registered (backends (serverPool w))"
    and alive: "3 \<le> length (filter Alive (backends (serverPool w)))"
    and att: "GetAttemptsFromContext r = 1"
  shows "\<exists>es w'. lb always_fails r w =
            (Inr (Some (HttpError ''servie not available'' StatusServiceUnavailable)), w') \<and>
          trace w' = trace w @ es \<and> card (set (forwarded es)) = 3"
proof -
  let ?bs = "backends (serverPool w)"
  have p1: "0 < length (filter Alive ?bs)" using alive by linarith
  have q1: "\<not> 3 < GetAttemptsFromContext r" using att by simp
  obtain i1 es1 r1 w1 where
    i1: "i1 < length ?bs" "Alive (?bs ! i1)" and
    f1: "set (forwarded es1) = {URL (?bs ! i1)}" and
    a1: "GetAttemptsFromContext r1 = GetAttemptsFromContext r + 1" and
    b1: "backends (serverPool w1) = ?bs[i1 := SetAlive (?bs ! i1) False]" and
    t1: "trace w1 = trace w @ es1" and
    l1: "lb always_fails r w = lb always_fails r1 w1"
    using lb_hop[OF reg p1 q1] by blast
  let ?bs1 = "backends (serverPool w1)"
  have reg1: "registered ?bs1" unfolding b1 using reg by (rule registered_update)
  have c1: "length (filter Alive ?bs1) = length (filter Alive ?bs) - 1"
    unfolding b1 using i1 by (rule alive_count_after_mark)
  have p2: "0 < length (filter Alive ?bs1)" using alive c1 by linarith
  have q2: "\<not> 3 < GetAttemptsFromContext r1" using att a1 by simp
  obtain i2 es2 r2 w2 where
    i2: "i2 < length ?bs1" "Alive (?bs1 ! i2)" and
    f2: "set (forwarded es2) = {URL (?bs1 ! i2)}" and
    a2: "GetAttemptsFromContext r2 = GetAttemptsFromContext r1 + 1" and
    b2: "backends (serverPool w2) = ?bs1[i2 := SetAlive (?bs1 ! i2) False]" and
    t2: "trace w2 = trace w1 @ es2" and
    l2: "lb always_fails r1 w1 = lb always_fails r2 w2"
    using lb_hop[OF reg1 p2 q2] by blast
  let ?bs2 = "backends (serverPool w2)"
  have reg2: "registered ?bs2" unfolding b2 using reg1 by (rule registered_update)
  have c2: "length (filter Alive ?bs2) = length (filter Alive ?bs1) - 1"
    unfolding b2 using i2 by (rule alive_count_after_mark)
  have p3: "0 < length (filter Alive ?bs2)" using alive c1 c2 by linarith
  have q3: "\<not> 3 < GetAttemptsFromContext r2" using att a1 a2 by simp
  obtain i3 es3 r3 w3 where
    i3: "i3 < length ?bs2" "Alive (?bs2 ! i3)" and
    f3: "set (forwarded es3) = {URL (?bs2 ! i3)}" and
    a3: "GetAttemptsFromContext r3 = GetAttemptsFromContext r2 + 1" and
    t3: "trace w3 = trace w2 @ es3" and
    l3: "lb always_fails r2 w2 = lb always_fails r3 w3"
    using lb_hop[OF reg2 p3 q3] by blast
  have len1: "length ?bs1 = length ?bs" by (simp add: b1)
  have len2: "length ?bs2 = length ?bs" by (simp add: b2 b1)
  have n21: "i2 \<noteq> i1" and al2: "Alive (?bs ! i2)"
    using alive_after_mark_neq[OF i1(1), of i2] i2(2) unfolding b1 by simp_all
  have i3': "i3 \<noteq> i2" "Alive (?bs1 ! i3)"
    using alive_after_mark_neq[OF i2(1), of i3] i3(2) unfolding b2 by simp_all
  have n31: "i3 \<noteq> i1"
    using alive_after_mark_neq[OF i1(1), of i3] i3'(2) unfolding b1 by simp
  have u2: "URL (?bs1 ! i2) = URL (?bs ! i2)"
    unfolding b1 using i2(1) len1 by (simp add: nth_SetAlive_update)
  have u3: "URL (?bs2 ! i3) = URL (?bs ! i3)"
    unfolding b2 b1 using i3(1) len2 by (simp add: nth_SetAlive_update)
  have lt: "i1 < length ?bs" "i2 < length ?bs" "i3 < length ?bs"
    using i1 i2 i3 len1 len2 by simp_all
  have d: "URL (?bs ! i1) \<noteq> URL (?bs ! i2)" "URL (?bs ! i1) \<noteq> URL (?bs ! i3)"
    "URL (?bs ! i2) \<noteq> URL (?bs ! i3)"
    using registered_urls_distinct[OF reg] lt n21 n31 i3'(1) by metis+
  have "3 < GetAttemptsFromContext r3" using att a1 a2 a3 by simp
  then have "lb always_fails r w =
      (Inr (Some (HttpError ''servie not available'' StatusServiceUnavailable)), w3)"
    using l1 l2 l3 by (simp add: lb_guard)
  moreover have "trace w3 = trace w @ (es1 @ es2 @ es3)" using t1 t2 t3 by simp
  moreover have "set (forwarded (es1 @ es2 @ es3)) = {URL (?bs ! i1), URL (?bs ! i2), URL (?bs ! i3)}"
    using f1 f2 f3 u2 u3 by (auto simp: forwarded_append)
  then have "card (set (forwarded (es1 @ es2 @ es3))) = 3" using d by simp
  ultimately show ?thesis by blast
qed

lemma card_insert_bound:
  assumes "finite S" "card (S - {u}) \<le> k"
  shows "card S \<le> Suc k"
proof (cases "u \<in> S")
  case True
  then have "Suc (card (S - {u})) = card S" using assms(1) by (rule card_Suc_Diff1[rotated])
  then show ?thesis using assms(2) by simp
next
  case False
  then have "S - {u} = S" by simp
  then show ?thesis using assms(2) by simp
qed

text \<open>
  Whatever the pool, the request and the network: the dispatcher forwards a request to
  at most \<open>4 - attempts\<close> different upstreams.
\<close>

lemma upstreams_bound:
  shows "\<exists>es. trace (snd (lb rt r w)) = trace w @ es \<and>
           card (set (forwarded es)) \<le> nat (4 - GetAttemptsFromContext r)"
    and "\<exists>es. trace (snd (ServeHTTP rt u r w)) = trace w @ es \<and>
           card (set (forwarded es) - {u}) \<le> nat (3 - GetAttemptsFromContext r)"
    and "\<exists>es. trace (snd (ErrorHandler rt u r w)) = trace w @ es \<and>
           card (set (forwarded es) - {u}) \<le> nat (3 - GetAttemptsFromContext r)"
proof (induction rt r w and rt u r w and rt u r w rule: lb_ServeHTTP_ErrorHandler.induct)
  case (1 rt r w)
  show ?case
  proof (cases "3 < GetAttemptsFromContext r")
    case True
    then have "trace (snd (lb rt r w)) = trace w @ []" by (simp add: lb_guard)
    then show ?thesis by (intro exI[of _ "[]"]) simp
  next
    case False
    obtain res s' where sel: "GetNextPeer (serverPool w) = (res, s')" by (cases "GetNextPeer (serverPool w)")
    show ?thesis
    proof (cases res)
      case (Inl p)
      then have "trace (snd (lb rt r w)) = trace w @ []" using False sel by (simp add: lb_panic)
      then show ?thesis by (intro exI[of _ "[]"]) simp
    next
      case (Inr b)
      show ?thesis
      proof (cases b)
        case None
        then have "trace (snd (lb rt r w)) = trace w @ []" using False sel Inr by (simp add: lb_none)
        then show ?thesis by (intro exI[of _ "[]"]) simp
      next
        case (Some peer)
        let ?u = "ReverseProxy (backends s' ! peer)"
        have run: "lb rt r w = ServeHTTP rt ?u r (w\<lparr>serverPool := s'\<rparr>)"
          using False sel Inr Some by (simp add: lb_peer)
        obtain es where
          t: "trace (snd (ServeHTTP rt ?u r (w\<lparr>serverPool := s'\<rparr>))) = trace (w\<lparr>serverPool := s'\<rparr>) @ es" and
          c: "card (set (forwarded es) - {?u}) \<le> nat (3 - GetAttemptsFromContext r)"
          using "1.IH"[OF refl False sel[symmetric] Inr Some] by blast
        have "card (set (forwarded es)) \<le> Suc (nat (3 - GetAttemptsFromContext r))"
          using c by (intro card_insert_bound[of _ ?u]) simp_all
        also have "\<dots> = nat (4 - GetAttemptsFromContext r)" using False by simp
        finally show ?thesis using t run by auto
      qed
    qed
  qed
next
  case (2 rt serverUrl r w)
  show ?case
  proof (cases "rt (length (trace w)) serverUrl")
    case True
    then have "trace (snd (ServeHTTP rt serverUrl r w)) = trace w @ [Forward serverUrl]"
      by (simp add: ServeHTTP_ok)
    then show ?thesis by (intro exI[of _ "[Forward serverUrl]"]) simp
  next
    case False
    let ?w' = "w\<lparr>trace := trace w @ [Forward serverUrl]\<rparr>"
    obtain es where
      t: "trace (snd (ErrorHandler rt serverUrl r ?w')) = trace ?w' @ es" and
      c: "card (set (forwarded es) - {serverUrl}) \<le> nat (3 - GetAttemptsFromContext r)"
      using "2.IH"[OF refl False] by blast
    have "trace (snd (ServeHTTP rt serverUrl r w)) = trace w @ (Forward serverUrl # es)"
      using False t by (simp add: ServeHTTP_fails)
    moreover have "set (forwarded (Forward serverUrl # es)) - {serverUrl} = set (forwarded es) - {serverUrl}"
      by auto
    ultimately show ?thesis using c by metis
  qed
next
  case (3 rt serverUrl request w)
  show ?case
  proof (cases "GetRetryFromContext request < 3")
    case True
    let ?w' = "w\<lparr>trace := trace w @ [After 10]\<rparr>"
    let ?r' = "WithContext request (WithValue (Context request) Retry (GetRetryFromContext request + 1))"
    obtain es where
      t: "trace (snd (ServeHTTP rt serverUrl ?r' ?w')) = trace ?w' @ es" and
      c: "card (set (forwarded es) - {serverUrl}) \<le> nat (3 - GetAttemptsFromContext ?r')"
      using "3.IH"(1)[OF refl True refl refl] by blast
    have "trace (snd (ErrorHandler rt serverUrl request w)) = trace w @ (After 10 # es)"
      using True t by (simp add: ErrorHandler_retry)
    moreover have "set (forwarded (After 10 # es)) = set (forwarded es)" by simp
    ultimately show ?thesis using c unfolding attempts_after_retry by metis
  next
    case False
    let ?w' = "w\<lparr>serverPool := MarkBackendStatus (serverPool w) serverUrl False\<rparr>"
    let ?r' = "WithContext request (WithValue (Context request) Attempts (GetAttemptsFromContext request + 1))"
    obtain es where
      t: "trace (snd (lb rt ?r' ?w')) = trace ?w' @ es" and
      c: "card (set (forwarded es)) \<le> nat (4 - GetAttemptsFromContext ?r')"
      using "3.IH"(2)[OF refl False refl refl refl] by blast
    have "card (set (forwarded es) - {serverUrl}) \<le> card (set (forwarded es))"
      by (intro card_mono) auto
    also have "\<dots> \<le> nat (3 - GetAttemptsFromContext request)"
      using c unfolding attempts_after_failover by simp
    finally have "card (set (forwarded es) - {serverUrl}) \<le> nat (3 - GetAttemptsFromContext request)" .
    moreover have "trace (snd (ErrorHandler rt serverUrl request w)) = trace w @ es"
      using False t by (simp add: ErrorHandler_failover)
    ultimately show ?thesis by blast
  qed
qed

subsection \<open>The attempt cap\<close>

text \<open>
  C5, as amended. A request whose \<open>attempts\<close> value exceeds 3 is answered at once
  with status 503, the pool and the trace untouched; an absent value counts as 1.
  Whatever the pool and the network, a request is forwarded to at most
  \<open>4 - attempts\<close> different upstreams, so to at most 3 when the value is absent.
  When the pool is registered, at least 3 of its backends are alive, \<open>attempts\<close> is
  1 and every round trip fails, the request is answered with status 503 after it was
  forwarded to exactly 3 different upstreams.
\<close>

theorem lb_attempt_cap:
  "(3 < GetAttemptsFromContext r \<longrightarrow>
      lb rt r w = (Inr (Some (HttpError ''servie not available'' StatusServiceUnavailable)), w)) \<and>
   (Value (Context r) Attempts = None \<longrightarrow> GetAttemptsFromContext r = 1) \<and>
   (\<exists>es. trace (snd (lb rt r w)) = trace w @ es \<and>
         card (set (forwarded es)) \<le> nat (4 - GetAttemptsFromContext r)) \<and>
   (registered (backends (serverPool w)) \<and> 3 \<le> length (filter Alive (backends (serverPool w))) \<and>
    GetAttemptsFromContext r = 1 \<longrightarrow>
      (\<exists>es w'. lb always_fails r w =
          (Inr (Some (HttpError ''servie not available'' StatusServiceUnavailable)), w') \<and>
        trace w' = trace w @ es \<and> card (set (forwarded es)) = 3))"
proof (intro conjI impI)
  assume "3 < GetAttemptsFromContext r"
  then show "lb rt r w = (Inr (Some (HttpError ''servie not available'' StatusServiceUnavailable)), w)"
    by (rule lb_guard)
next
  assume "Value (Context r) Attempts = None"
  then show "GetAttemptsFromContext r = 1" by (simp add: GetAttemptsFromContext_def)
next
  show "\<exists>es. trace (snd (lb rt r w)) = trace w @ es \<and>
         card (set (forwarded es)) \<le> nat (4 - GetAttemptsFromContext r)"
    by (rule upstreams_bound(1))
next
  assume "registered (backends (serverPool w)) \<and> 3 \<le> length (filter Alive (backends (serverPool w))) \<and>
    GetAttemptsFromContext r = 1"
  then show "\<exists>es w'. lb always_fails r w =
          (Inr (Some (HttpError ''servie not available'' StatusServiceUnavailable)), w') \<and>
        trace w' = trace w @ es \<and> card (set (forwarded es)) = 3"
    using lb_three_hops by blast
qed

theorem lb_attempt_cap_witness:
  "registered (backends (serverPool (serving (pool [(''b1'', True), (''b2'', True), (''b3'', True), (''b4'', True)] 0)))) \<and>
   3 \<le> length (filter Alive (backends (serverPool (serving
          (pool [(''b1'', True), (''b2'', True), (''b3'', True), (''b4'', True)] 0))))) \<and>
   Value (Context fresh) Attempts = None \<and>
   GetAttemptsFromContext fresh = 1 \<and>
   3 < GetAttemptsFromContext \<lparr>Context = [Attempts \<mapsto> 4]\<rparr> \<and>
   lb always_fails \<lparr>Context = [Attempts \<mapsto> 4]\<rparr> (serving (pool [(''b1'', True)] 0)) =
     (Inr (Some (HttpError ''servie not available'' StatusServiceUnavailable)),
      serving (pool [(''b1'', True)] 0)) \<and>
   (\<exists>es w'. lb always_fails fresh (serving (pool [(''b1'', True), (''b2'', True), (''b3'', True), (''b4'', True)] 0)) =
          (Inr (Some (HttpError ''servie not available'' StatusServiceUnavailable)), w') \<and>
        trace w' = trace (serving (pool [(''b1'', True), (''b2'', True), (''b3'', True), (''b4'', True)] 0)) @ es \<and>
        card (set (forwarded es)) = 3)"
proof -
  let ?w = "serving (pool [(''b1'', True), (''b2'', True), (''b3'', True), (''b4'', True)] 0)"
  have h1: "registered (backends (serverPool ?w))"
    by (simp add: registered_def serving_def pool_def backend_def server_def)
  have h2: "3 \<le> length (filter Alive (backends (serverPool ?w)))"
    by (simp add: serving_def pool_def backend_def)
  have h3: "Value (Context fresh) Attempts = None" by (simp add: fresh_def Value_def)
  have h4: "GetAttemptsFromContext fresh = 1"
    using lb_attempt_cap [of fresh always_fails ?w] h3 by blast
  have h5: "3 < GetAttemptsFromContext \<lparr>Context = [Attempts \<mapsto> 4]\<rparr>"
    by (simp add: GetAttemptsFromContext_def Value_def)
  have h6: "lb always_fails \<lparr>Context = [Attempts \<mapsto> 4]\<rparr> (serving (pool [(''b1'', True)] 0)) =
     (Inr (Some (HttpError ''servie not available'' StatusServiceUnavailable)),
      serving (pool [(''b1'', True)] 0))"
    using lb_attempt_cap [of "\<lparr>Context = [Attempts \<mapsto> 4]\<rparr>" always_fails
        "serving (pool [(''b1'', True)] 0)"] h5 by blast
  show ?thesis
    using lb_attempt_cap [of fresh always_fails ?w] h1 h2 h3 h4 h5 h6 by blast
qed

text \<open>
  With two backends, both alive and both failing, the request is forwarded to two
  upstreams and then no backend is alive: the handler returns having written nothing.
\<close>

theorem lb_two_backends_counterexample:
  "lb always_fails fresh (serving (pool [(''b1'', True), (''b2'', True)] 0)) =
     (Inr None,
      \<lparr>serverPool = pool [(''b1'', False), (''b2'', False)] 3,
       trace = [Forward (server ''b2''), After 10, Forward (server ''b2''), After 10,
                Forward (server ''b2''), After 10, Forward (server ''b2''),
                Forward (server ''b1'')]\<rparr>)"
  by code_simp

subsection \<open>Runs in which every round trip fails\<close>

text \<open>
  C3. A fresh request to a pool of one backend, alive, every round trip failing: the
  backend is forwarded to four times (three retries, each after a wait of 10 ms) and
  marked dead; the dispatcher is entered again with \<open>attempts = 2\<close>, finds no peer
  and returns having written nothing to the response writer. No status 503 is sent.
\<close>

theorem lb_single_backend_no_response:
  "lb always_fails fresh (serving (pool [(''b1'', True)] 0)) =
     (Inr None,
      \<lparr>serverPool = pool [(''b1'', False)] 2,
       trace = [Forward (server ''b1''), After 10, Forward (server ''b1''), After 10,
                Forward (server ''b1''), After 10, Forward (server ''b1'')]\<rparr>)"
  by code_simp

text \<open>
  C4. A fresh request to a pool of three backends, all alive, every round trip
  failing: the first backend chosen is retried three times, each retry after a wait of
  10 ms, and marked dead after its fourth failure; the two backends chosen by failover
  are forwarded to once each and marked dead after that first failure, with no retry.
\<close>

theorem lb_failover_targets_not_retried:
  "lb always_fails fresh (serving (pool [(''b1'', True), (''b2'', True), (''b3'', True)] 0)) =
     (Inr (Some (HttpError ''servie not available'' 503)),
      \<lparr>serverPool = pool [(''b1'', False), (''b2'', False), (''b3'', False)] 3,
       trace = [Forward (server ''b2''), After 10, Forward (server ''b2''), After 10,
                Forward (server ''b2''), After 10, Forward (server ''b2''),
                Forward (server ''b3''),
                Forward (server ''b1'')]\<rparr>)"
  by code_simp

subsection \<open>The failover step\<close>

text \<open>
  C2. When \<open>retries\<close> is not below 3, the error handler marks its \<open>serverUrl\<close>
  dead in the pool and calls the dispatcher with \<open>attempts\<close> raised by one. The
  context it passes on is the old one extended at the key \<open>Attempts\<close> only:
  \<open>retries\<close> is what it was (3 or more), not 0.
\<close>

theorem ErrorHandler_failover_keeps_retries:
  "\<not> GetRetryFromContext request < 3 \<Longrightarrow>
     (let ctx = WithValue (Context request) Attempts (GetAttemptsFromContext request + 1);
          w' = w\<lparr>serverPool := MarkBackendStatus (serverPool w) serverUrl False\<rparr>
      in ErrorHandler rt serverUrl request w = lb rt (WithContext request ctx) w' \<and>
         GetAttemptsFromContext (WithContext request ctx) = GetAttemptsFromContext request + 1 \<and>
         GetRetryFromContext (WithContext request ctx) = GetRetryFromContext request \<and>
         GetRetryFromContext (WithContext request ctx) \<noteq> 0)"
  by (simp add: Let_def ErrorHandler_failover attempts_after_failover retry_after_failover)

theorem ErrorHandler_failover_keeps_retries_witness:
  "\<not> GetRetryFromContext \<lparr>Context = [Retry \<mapsto> 3]\<rparr> < 3 \<and>
   ErrorHandler always_fails (server ''b2'') \<lparr>Context = [Retry \<mapsto> 3]\<rparr>
       (serving (pool [(''b1'', True), (''b2'', True)] 1)) =
     lb always_fails \<lparr>Context = [Retry \<mapsto> 3, Attempts \<mapsto> 2]\<rparr>
       (serving (pool [(''b1'', True), (''b2'', False)] 1)) \<and>
   GetRetryFromContext \<lparr>Context = [Retry \<mapsto> 3, Attempts \<mapsto> 2]\<rparr> = 3"
proof -
  have h: "\<not> GetRetryFromContext \<lparr>Context = [Retry \<mapsto> 3]\<rparr> < 3"
    by (simp add: GetRetryFromContext_def Value_def)
  show ?thesis
    using ErrorHandler_failover_keeps_retries
      [OF h, of "serving (pool [(''b1'', True), (''b2'', True)] 1)" "server ''b2''" always_fails] h
    by (simp add: Let_def GetAttemptsFromContext_def GetRetryFromContext_def Value_def
        WithValue_def WithContext_def Attempts_def Retry_def serving_def pool_def backend_def
        server_def MarkBackendStatus_def SetAlive_def)
qed

section \<open>Startup\<close>

lemma main_never_registers: "main Parse serverList = Listening p u \<Longrightarrow> p = var_serverPool"
  by (cases "Split serverList CHR '',''")
    (auto simp: main_def split: if_splits option.splits)

text \<open>
  C7. Started with two backend addresses, \<open>main\<close> parses the first, builds its proxy
  and serves: the pool the dispatcher works on is still the zero value, without any
  backend, and a request dispatched on it panics in \<open>NextIndex\<close>.
\<close>

theorem main_serves_empty_pool:
  "main (\<lambda>tok. Some (server (drop 7 tok))) ''http://localhost:3031,http://localhost:3032'' =
     Listening \<lparr>backends = [], current = 0\<rparr> (server ''localhost:3031'') \<and>
   fst (lb rt fresh (serving \<lparr>backends = [], current = 0\<rparr>)) = Inl DivideByZero"
proof -
  have "GetNextPeer (serverPool (serving \<lparr>backends = [], current = 0\<rparr>)) =
      (Inl DivideByZero, \<lparr>backends = [], current = 1\<rparr>)"
    by (simp add: GetNextPeer_empty serving_def)
  moreover have "\<not> 3 < GetAttemptsFromContext fresh"
    by (simp add: GetAttemptsFromContext_def Value_def fresh_def)
  ultimately have "fst (lb rt fresh (serving \<lparr>backends = [], current = 0\<rparr>)) = Inl DivideByZero"
    by (simp add: lb_panic)
  moreover have "main (\<lambda>tok. Some (server (drop 7 tok))) ''http://localhost:3031,http://localhost:3032'' =
     Listening \<lparr>backends = [], current = 0\<rparr> (server ''localhost:3031'')"
    by (simp add: main_def var_serverPool_def)
  ultimately show ?thesis by simp
qed

text \<open>No operation on the pool changes the number of its backends.\<close>

lemma MarkBackendStatus_loop_length: "length (MarkBackendStatus_loop bs u a) = length bs"
  by (induction bs) simp_all

lemma pool_never_resized:
  "length (backends (snd (GetNextPeer s))) = length (backends s)"
  "length (backends (MarkBackendStatus s u a)) = length (backends s)"
  "length (backends (HealthCheck dial s)) = length (backends s)"
proof -
  show "length (backends (snd (GetNextPeer s))) = length (backends s)"
    by (cases "backends s = []")
      (simp_all add: GetNextPeer_empty GetNextPeer_nonempty Let_def split: option.splits)
  show "length (backends (MarkBackendStatus s u a)) = length (backends s)"
    by (simp add: MarkBackendStatus_def MarkBackendStatus_loop_length)
  show "length (backends (HealthCheck dial s)) = length (backends s)"
    by (simp add: HealthCheck_def HealthCheck_loop_length)
qed

end
